theory Spec2Isabelle
  imports Main "HOL-Library.Multiset" "HOL-Library.Monad_Syntax"
begin

section \<open>Data model\<close>

text \<open>
  Python objects live in a store and are named by their address.  Tile objects are kept
  in a list of \<open>DominoTile\<close> records, node objects in a list of \<open>DominoNode\<close> records; an
  address is the index of the object, and creating an object appends it to the store.
  A Python list of tiles is a list of addresses.  Python's \<open>None\<close> in a field of type
  \<open>DominoNode | None\<close> is \<open>None\<close> of the option type.
\<close>

type_synonym ref = nat

record DominoTile =
  value_left :: int
  value_right :: int

record DominoNode =
  tile :: ref
  prev_node :: "ref option"
  next_node :: "ref option"

record DominoLinkedChain =
  node_first :: "ref option"
  node_last :: "ref option"

section \<open>Tiles\<close>

text \<open>\<open>DominoTile.flip\<close>: the object at address \<open>r\<close> gets its two fields exchanged.\<close>

definition flip :: "DominoTile list \<Rightarrow> ref \<Rightarrow> DominoTile list" where
  "flip h r =
     h[r := (h ! r)\<lparr>value_left := value_right (h ! r), value_right := value_left (h ! r)\<rparr>]"

text \<open>\<open>DominoTile.clone\<close>: a new object with the same two values; its address is returned.\<close>

definition clone :: "DominoTile list \<Rightarrow> ref \<Rightarrow> DominoTile list \<times> ref" where
  "clone h r =
     (h @ [\<lparr>value_left = value_left (h ! r), value_right = value_right (h ! r)\<rparr>], length h)"

text \<open>The comprehension \<open>[tile.clone() for tile in tiles]\<close>.\<close>

fun clone_all :: "DominoTile list \<Rightarrow> ref list \<Rightarrow> DominoTile list \<times> ref list" where
  "clone_all h [] = (h, [])"
| "clone_all h (r # rs) =
     (let (h1, c) = clone h r; (h2, cs) = clone_all h1 rs in (h2, c # cs))"

text \<open>
  Python's \<open>str\<close> on an integer: the decimal digits, with a minus sign for a negative
  number.
\<close>

definition digit_char :: "nat \<Rightarrow> char" where
  "digit_char d = ''0123456789'' ! d"

fun str_nat :: "nat \<Rightarrow> string" where
  "str_nat n = (if n < 10 then [digit_char n] else str_nat (n div 10) @ [digit_char (n mod 10)])"

declare str_nat.simps [simp del]

definition str_int :: "int \<Rightarrow> string" where
  "str_int i = (if i < 0 then CHR ''-'' # str_nat (nat (- i)) else str_nat (nat i))"

text \<open>\<open>DominoTile.__str__\<close>.\<close>

definition tile_str :: "DominoTile \<Rightarrow> string" where
  "tile_str t = str_int (value_left t) @ str_int (value_right t)"

section \<open>The doubly linked chain\<close>

text \<open>
  \<open>DominoLinkedChain.append_tile\<close> on the node store and the chain object.  The test
  \<open>if self.node_last\<close> is a test against \<open>None\<close>: a node object is always true.
\<close>

definition append_tile ::
  "DominoNode list \<times> DominoLinkedChain \<Rightarrow> ref \<Rightarrow> DominoNode list \<times> DominoLinkedChain" where
  "append_tile nc t =
     (let (nh, chain) = nc;
          node = length nh;
          nh1 = nh @ [\<lparr>tile = t, prev_node = None, next_node = None\<rparr>]
      in case node_last chain of
           Some l \<Rightarrow>
             (let nh2 = nh1[l := (nh1 ! l)\<lparr>next_node := Some node\<rparr>];
                  nh3 = nh2[node := (nh2 ! node)\<lparr>prev_node := Some l\<rparr>]
              in (nh3, chain\<lparr>node_last := Some node\<rparr>))
         | None \<Rightarrow> (nh1, chain\<lparr>node_first := Some node, node_last := Some node\<rparr>))"

text \<open>
  \<open>DominoLinkedChain.to_list\<close>: the loop follows \<open>next_node\<close> until it reads \<open>None\<close>.  On
  a cyclic store it would not return, which is the value \<open>None\<close> of the result here.
\<close>

partial_function (option) to_list_loop ::
  "DominoTile list \<Rightarrow> DominoNode list \<Rightarrow> ref option \<Rightarrow> string list \<Rightarrow> string list option" where
  "to_list_loop h nh current result =
     (case current of
        None \<Rightarrow> Some result
      | Some c \<Rightarrow>
          to_list_loop h nh (next_node (nh ! c)) (result @ [tile_str (h ! tile (nh ! c))]))"

definition to_list ::
  "DominoTile list \<Rightarrow> DominoNode list \<Rightarrow> DominoLinkedChain \<Rightarrow> string list option" where
  "to_list h nh chain = to_list_loop h nh (node_first chain) []"

section \<open>The search\<close>

subsection \<open>Permutations\<close>

text \<open>
  \<open>generate_permutations\<close> works on the caller's list object: \<open>permute\<close> exchanges two
  positions of it, recurses and exchanges them back.  The state of the recursion is the
  tile store, the list and the \<open>result\<close> list.  The loop variable runs over
  \<open>range(start, len(tiles))\<close>, which is computed when the loop is entered, so both indices
  of an exchange are inside the list.
\<close>

record perm_state =
  p_heap :: "DominoTile list"
  p_tiles :: "ref list"
  p_result :: "ref list list"

definition swap :: "nat \<Rightarrow> nat \<Rightarrow> perm_state \<Rightarrow> perm_state" where
  "swap a b s = s\<lparr>p_tiles := (p_tiles s)[a := p_tiles s ! b, b := p_tiles s ! a]\<rparr>"

function permute :: "nat \<Rightarrow> perm_state \<Rightarrow> perm_state"
  and permute_loop :: "nat \<Rightarrow> nat list \<Rightarrow> perm_state \<Rightarrow> perm_state" where
  "permute start s =
     (if start = length (p_tiles s) then
        (let (h, c) = clone_all (p_heap s) (p_tiles s)
         in s\<lparr>p_heap := h, p_result := p_result s @ [c]\<rparr>)
      else permute_loop start [start..<length (p_tiles s)] s)"
| "permute_loop start [] s = s"
| "permute_loop start (i # is) s =
     permute_loop start is (swap start i (permute (start + 1) (swap start i s)))"
  by pat_completeness auto

lemma permute_length_dom:
  "permute_permute_loop_dom (Inl (start, s)) \<Longrightarrow>
     length (p_tiles (permute start s)) = length (p_tiles s)"
  "permute_permute_loop_dom (Inr (start, js, s)) \<Longrightarrow>
     length (p_tiles (permute_loop start js s)) = length (p_tiles s)"
proof (induction start s and start js s rule: permute_permute_loop.pinduct)
  case (1 start s)
  then show ?case by (simp add: permute.psimps split: prod.splits)
next
  case (2 start s)
  then show ?case by (simp add: permute_loop.psimps)
next
  case (3 start i "is" s)
  then show ?case by (simp add: permute_loop.psimps swap_def)
qed

termination permute
proof (relation "inv_image (less_than <*lex*> less_than) (\<lambda>x. case x of
      Inl (start, s) \<Rightarrow>
        (if start \<le> length (p_tiles s) then 2 * (length (p_tiles s) - start) + 3 else 1, 0::nat)
    | Inr (start, js, s) \<Rightarrow>
        (if js = [] then 0
         else if start \<le> length (p_tiles s) then 2 * (length (p_tiles s) - start) + 2 else 2,
         length js))", goal_cases)
  case 1
  show ?case by (intro wf_inv_image wf_lex_prod wf_less_than)
next
  case (2 start s)
  then show ?case by auto
next
  case (3 start i "is" s)
  then show ?case by (auto simp: swap_def)
next
  case (4 start i "is" s)
  then show ?case by (auto simp: swap_def permute_length_dom)
qed

declare permute.simps [simp del]

text \<open>
  \<open>generate_permutations\<close> returns the store, the caller's list as the call leaves it and
  the list of permutations.
\<close>

definition generate_permutations ::
  "DominoTile list \<Rightarrow> ref list \<Rightarrow> DominoTile list \<times> ref list \<times> ref list list" where
  "generate_permutations h tiles =
     (let s = permute 0 \<lparr>p_heap = h, p_tiles = tiles, p_result = []\<rparr>
      in (p_heap s, p_tiles s, p_result s))"

subsection \<open>Orientations\<close>

text \<open>
  \<open>generate_flips\<close>: the recursion \<open>flip(index)\<close> changes tile objects, never the list.
  Called with an index beyond the length it would recurse for ever; not returning is the
  value \<open>None\<close>.
\<close>

record flip_state =
  f_heap :: "DominoTile list"
  f_result :: "ref list list"

partial_function (option) flip_rec ::
  "ref list \<Rightarrow> nat \<Rightarrow> flip_state \<Rightarrow> flip_state option" where
  "flip_rec tiles index s =
     (if index = length tiles then
        (let (h, c) = clone_all (f_heap s) tiles
         in Some \<lparr>f_heap = h, f_result = f_result s @ [c]\<rparr>)
      else do {
        s1 \<leftarrow> flip_rec tiles (index + 1) s;
        s2 \<leftarrow> flip_rec tiles (index + 1) (s1\<lparr>f_heap := flip (f_heap s1) (tiles ! index)\<rparr>);
        Some (s2\<lparr>f_heap := flip (f_heap s2) (tiles ! index)\<rparr>)
      })"

definition generate_flips ::
  "DominoTile list \<Rightarrow> ref list \<Rightarrow> (DominoTile list \<times> ref list list) option" where
  "generate_flips h tiles =
     do {
       s \<leftarrow> flip_rec tiles 0 \<lparr>f_heap = h, f_result = []\<rparr>;
       Some (f_heap s, f_result s)
     }"

subsection \<open>Validity\<close>

text \<open>
  \<open>is_valid_chain\<close> of \<open>DominoLinkedChain.build_if_possible\<close>: the loop over
  \<open>range(len(tiles) - 1)\<close> returns \<open>False\<close> at the first mismatch.  For the empty list
  the range is \<open>range(-1)\<close>, which is empty, as is \<open>[0..<0 - 1]\<close> on the naturals.
\<close>

fun is_valid_loop :: "DominoTile list \<Rightarrow> ref list \<Rightarrow> nat list \<Rightarrow> bool" where
  "is_valid_loop h tiles [] = True"
| "is_valid_loop h tiles (i # is) =
     (if value_right (h ! (tiles ! i)) \<noteq> value_left (h ! (tiles ! (i + 1))) then False
      else is_valid_loop h tiles is)"

definition is_valid_chain :: "DominoTile list \<Rightarrow> ref list \<Rightarrow> bool" where
  "is_valid_chain h tiles = is_valid_loop h tiles [0..<length tiles - 1]"

text \<open>\<open>check_chain_valid\<close>, the free function of the second file, with its own loop.\<close>

fun check_valid_loop :: "DominoTile list \<Rightarrow> ref list \<Rightarrow> nat list \<Rightarrow> bool" where
  "check_valid_loop h tiles [] = True"
| "check_valid_loop h tiles (i # is) =
     (if value_right (h ! (tiles ! i)) \<noteq> value_left (h ! (tiles ! (i + 1))) then False
      else check_valid_loop h tiles is)"

definition check_chain_valid :: "DominoTile list \<Rightarrow> ref list \<Rightarrow> bool" where
  "check_chain_valid h tiles = check_valid_loop h tiles [0..<length tiles - 1]"

subsection \<open>The solver\<close>

text \<open>
  The result of a call is what it returns (\<open>None\<close> or the chain object), the tile store,
  the node store and the caller's list after the call.  The outer option is \<open>None\<close> when
  the call does not return.
\<close>

type_synonym solver_result =
  "(DominoLinkedChain option \<times> DominoTile list \<times> DominoNode list \<times> ref list) option"

text \<open>The statements \<open>chain = DominoLinkedChain()\<close> and the loop of \<open>append_tile\<close>.\<close>

definition new_chain :: DominoLinkedChain where
  "new_chain = \<lparr>node_first = None, node_last = None\<rparr>"

definition make_chain :: "DominoNode list \<Rightarrow> ref list \<Rightarrow> DominoNode list \<times> DominoLinkedChain" where
  "make_chain nh variant = fold (\<lambda>t nc. append_tile nc t) variant (nh, new_chain)"

text \<open>\<open>DominoLinkedChain.build_if_possible\<close>.\<close>

fun variants_loop ::
  "DominoTile list \<Rightarrow> DominoNode list \<Rightarrow> ref list list
     \<Rightarrow> (DominoNode list \<times> DominoLinkedChain) option" where
  "variants_loop h nh [] = None"
| "variants_loop h nh (variant # vs) =
     (if is_valid_chain h variant then Some (make_chain nh variant)
      else variants_loop h nh vs)"

fun permutations_loop ::
  "DominoTile list \<Rightarrow> DominoNode list \<Rightarrow> ref list list
     \<Rightarrow> (DominoLinkedChain option \<times> DominoTile list \<times> DominoNode list) option" where
  "permutations_loop h nh [] = Some (None, h, nh)"
| "permutations_loop h nh (permutation # ps) =
     do {
       (h1, variants) \<leftarrow> generate_flips h permutation;
       case variants_loop h1 nh variants of
         Some (nh1, chain) \<Rightarrow> Some (Some chain, h1, nh1)
       | None \<Rightarrow> permutations_loop h1 nh ps
     }"

definition build_if_possible ::
  "DominoTile list \<Rightarrow> DominoNode list \<Rightarrow> ref list \<Rightarrow> solver_result" where
  "build_if_possible h nh tiles =
     (let (h1, tiles1, permutations) = generate_permutations h tiles
      in do {
        (res, h2, nh2) \<leftarrow> permutations_loop h1 nh permutations;
        Some (res, h2, nh2, tiles1)
      })"

text \<open>
  \<open>build_valid_chain\<close>, the free function of the second file.  Its helpers
  \<open>generate_permutations\<close> and \<open>generate_flips\<close> have the same text as the nested ones.
\<close>

fun flips_loop ::
  "DominoTile list \<Rightarrow> DominoNode list \<Rightarrow> ref list list
     \<Rightarrow> (DominoNode list \<times> DominoLinkedChain) option" where
  "flips_loop h nh [] = None"
| "flips_loop h nh (variant # vs) =
     (if check_chain_valid h variant then Some (make_chain nh variant)
      else flips_loop h nh vs)"

fun perms_loop ::
  "DominoTile list \<Rightarrow> DominoNode list \<Rightarrow> ref list list
     \<Rightarrow> (DominoLinkedChain option \<times> DominoTile list \<times> DominoNode list) option" where
  "perms_loop h nh [] = Some (None, h, nh)"
| "perms_loop h nh (perm # ps) =
     do {
       (h1, flips) \<leftarrow> generate_flips h perm;
       case flips_loop h1 nh flips of
         Some (nh1, chain) \<Rightarrow> Some (Some chain, h1, nh1)
       | None \<Rightarrow> perms_loop h1 nh ps
     }"

definition build_valid_chain ::
  "DominoTile list \<Rightarrow> DominoNode list \<Rightarrow> ref list \<Rightarrow> solver_result" where
  "build_valid_chain h nh tiles =
     (let (h1, tiles1, permutations) = generate_permutations h tiles
      in do {
        (res, h2, nh2) \<leftarrow> perms_loop h1 nh permutations;
        Some (res, h2, nh2, tiles1)
      })"

section \<open>Notions used in the statements\<close>

subsection \<open>Traversals of the node store\<close>

text \<open>
  \<open>fwd_path nh cur ns\<close>: following \<open>next_node\<close> from \<open>cur\<close> visits the nodes \<open>ns\<close>, in this
  order, and then reads \<open>None\<close>.  \<open>bwd_path\<close> is the same along \<open>prev_node\<close>.
  \<open>chain_nodes n0 ts\<close> are the node objects of a chain of the tiles \<open>ts\<close> whose first node
  has the address \<open>n0\<close>.
\<close>

definition chain_nodes :: "nat \<Rightarrow> ref list \<Rightarrow> DominoNode list" where
  "chain_nodes n0 ts =
     map (\<lambda>k. \<lparr>tile = ts ! k,
               prev_node = (if k = 0 then None else Some (n0 + k - 1)),
               next_node = (if Suc k = length ts then None else Some (n0 + Suc k))\<rparr>)
       [0..<length ts]"

fun fwd_path :: "DominoNode list \<Rightarrow> ref option \<Rightarrow> ref list \<Rightarrow> bool" where
  "fwd_path nh cur [] = (cur = None)"
| "fwd_path nh cur (n # ns) = (cur = Some n \<and> n < length nh \<and> fwd_path nh (next_node (nh ! n)) ns)"

fun bwd_path :: "DominoNode list \<Rightarrow> ref option \<Rightarrow> ref list \<Rightarrow> bool" where
  "bwd_path nh cur [] = (cur = None)"
| "bwd_path nh cur (n # ns) = (cur = Some n \<and> n < length nh \<and> bwd_path nh (prev_node (nh ! n)) ns)"


subsection \<open>The enumeration on tile values\<close>

text \<open>
  The same enumeration on lists of tile values instead of addresses: \<open>perms_swap\<close> is the
  order in which the exchanges of \<open>permute\<close> produce the permutations, \<open>flips_val\<close> the
  order in which \<open>flip\<close> produces the orientations, \<open>candidates\<close> all arrangements in the
  order the solver tries them, and \<open>chain_ok\<close> the adjacency rule.
\<close>

definition flipped :: "DominoTile \<Rightarrow> DominoTile" where
  "flipped t = \<lparr>value_left = value_right t, value_right = value_left t\<rparr>"

definition swap_list :: "nat \<Rightarrow> nat \<Rightarrow> 'a list \<Rightarrow> 'a list" where
  "swap_list a b xs = xs[a := xs ! b, b := xs ! a]"

function perms_swap :: "nat \<Rightarrow> 'a list \<Rightarrow> 'a list list" where
  "perms_swap start xs =
     (if length xs \<le> start then [xs]
      else concat (map (\<lambda>i. perms_swap (Suc start) (swap_list start i xs)) [start..<length xs]))"
  by pat_completeness auto
termination
  by (relation "measure (\<lambda>(start, xs). length xs - start)") (auto simp: swap_list_def)

declare perms_swap.simps [simp del]

function flips_val :: "nat \<Rightarrow> DominoTile list \<Rightarrow> DominoTile list list" where
  "flips_val index vs =
     (if length vs \<le> index then [vs]
      else flips_val (Suc index) vs @ flips_val (Suc index) (vs[index := flipped (vs ! index)]))"
  by pat_completeness auto
termination
  by (relation "measure (\<lambda>(index, vs). length vs - index)") auto

declare flips_val.simps [simp del]

fun chain_ok :: "DominoTile list \<Rightarrow> bool" where
  "chain_ok (a # b # rest) = (value_right a = value_left b \<and> chain_ok (b # rest))"
| "chain_ok _ = True"

definition candidates :: "DominoTile list \<Rightarrow> DominoTile list list" where
  "candidates vs = concat (map (flips_val 0) (perms_swap 0 vs))"

text \<open>
  \<open>fresh_lists n h new vals\<close>: the lists \<open>new\<close> of addresses name objects created after the
  store had \<open>n\<close> objects, each list without repetition, and in the store \<open>h\<close> they hold the
  values \<open>vals\<close>.
\<close>

definition fresh_lists ::
  "nat \<Rightarrow> DominoTile list \<Rightarrow> ref list list \<Rightarrow> DominoTile list list \<Rightarrow> bool" where
  "fresh_lists n h new vals \<longleftrightarrow>
     list_all2 (\<lambda>rs vs. distinct rs \<and> (\<forall>r\<in>set rs. n \<le> r \<and> r < length h) \<and> map ((!) h) rs = vs)
       new vals"

text \<open>
  \<open>oriented ps vs\<close>: the arrangement \<open>vs\<close> holds the tiles \<open>ps\<close> in the same order, each one as it
  is or flipped.
\<close>

definition oriented :: "DominoTile list \<Rightarrow> DominoTile list \<Rightarrow> bool" where
  "oriented ps vs \<longleftrightarrow> list_all2 (\<lambda>p v. v = p \<or> v = flipped p) ps vs"

section \<open>The chain container\<close>

lemma length_chain_nodes [simp]: "length (chain_nodes n0 ts) = length ts"
  by (simp add: chain_nodes_def)

lemma nth_chain_nodes:
  "k < length ts \<Longrightarrow> chain_nodes n0 ts ! k =
     \<lparr>tile = ts ! k, prev_node = (if k = 0 then None else Some (n0 + k - 1)),
      next_node = (if Suc k = length ts then None else Some (n0 + Suc k))\<rparr>"
  by (simp add: chain_nodes_def)

lemma make_chain_snoc: "make_chain nh (ts @ [t]) = append_tile (make_chain nh ts) t"
  by (simp add: make_chain_def)

lemma make_chain_eq:
  "make_chain nh ts =
     (nh @ chain_nodes (length nh) ts,
      if ts = [] then new_chain
      else \<lparr>node_first = Some (length nh), node_last = Some (length nh + length ts - 1)\<rparr>)"
proof (induction ts rule: rev_induct)
  case Nil
  show ?case by (simp add: make_chain_def chain_nodes_def)
next
  case (snoc t ts)
  show ?case
  proof (cases "ts = []")
    case True
    then show ?thesis
      by (simp add: make_chain_def append_tile_def new_chain_def chain_nodes_def Let_def)
  next
    case False
    obtain m where m: "length ts = Suc m" using False by (cases ts) auto
    let ?n = "length nh"
    let ?new = "\<lparr>tile = t, prev_node = None, next_node = None\<rparr>"
    let ?nh1 = "(nh @ chain_nodes ?n ts) @ [?new]"
    let ?nh2 = "?nh1[?n + m := (?nh1 ! (?n + m))\<lparr>next_node := Some (?n + Suc m)\<rparr>]"
    let ?nh3 = "?nh2[?n + Suc m := (?nh2 ! (?n + Suc m))\<lparr>prev_node := Some (?n + m)\<rparr>]"
    have step: "append_tile (make_chain nh ts) t =
        (?nh3, \<lparr>node_first = Some ?n, node_last = Some (?n + Suc m)\<rparr>)"
      using False m by (simp add: snoc.IH append_tile_def Let_def)
    have "?nh3 = nh @ chain_nodes ?n (ts @ [t])"
    proof (rule nth_equalityI)
      show "length ?nh3 = length (nh @ chain_nodes ?n (ts @ [t]))" by simp
    next
      fix i assume "i < length ?nh3"
      then have i: "i < ?n + Suc (Suc m)" using m by simp
      consider "i < ?n" | k where "i = ?n + k" "k < m" | "i = ?n + m" | "i = ?n + Suc m"
      proof -
        have "i < ?n \<or> (\<exists>k. i = ?n + k \<and> k < m) \<or> i = ?n + m \<or> i = ?n + Suc m"
          using i by (metis add_Suc_right le_add_diff_inverse less_Suc_eq nat_add_left_cancel_less not_less)
        then show ?thesis using that by blast
      qed
      then show "?nh3 ! i = (nh @ chain_nodes ?n (ts @ [t])) ! i"
      proof cases
        case 1
        then show ?thesis using m by (simp add: nth_append nth_list_update)
      next
        case 2
        then show ?thesis using m
          by (simp add: nth_append nth_list_update nth_chain_nodes)
      next
        case 3
        then show ?thesis using m
          by (simp add: nth_append nth_list_update nth_chain_nodes)
      next
        case 4
        then show ?thesis using m
          by (simp add: nth_append nth_list_update nth_chain_nodes)
      qed
    qed
    then show ?thesis using step False m by (simp add: make_chain_snoc)
  qed
qed

lemma fwd_path_chain:
  "k \<le> length ts \<Longrightarrow> length nh = n0 \<Longrightarrow>
   fwd_path (nh @ chain_nodes n0 ts)
     (if k = length ts then None else Some (n0 + k)) [n0 + k..<n0 + length ts]"
proof (induction "length ts - k" arbitrary: k)
  case 0
  then show ?case by simp
next
  case (Suc d)
  then have k: "k < length ts" by linarith
  have "[n0 + k..<n0 + length ts] = (n0 + k) # [n0 + Suc k..<n0 + length ts]"
    using k by (simp add: upt_conv_Cons)
  moreover have "fwd_path (nh @ chain_nodes n0 ts)
     (if Suc k = length ts then None else Some (n0 + Suc k)) [n0 + Suc k..<n0 + length ts]"
    using Suc.hyps(1) [of "Suc k"] Suc.hyps(2) Suc.prems k by simp
  ultimately show ?case using k Suc.prems
    by (simp add: nth_append nth_chain_nodes)
qed

lemma bwd_path_chain:
  "k \<le> length ts \<Longrightarrow> length nh = n0 \<Longrightarrow>
   bwd_path (nh @ chain_nodes n0 ts)
     (if k = 0 then None else Some (n0 + k - 1)) (rev [n0..<n0 + k])"
proof (induction k)
  case 0
  then show ?case by simp
next
  case (Suc k)
  then show ?case by (simp add: nth_append nth_chain_nodes)
qed

lemma to_list_loop_chain:
  "k \<le> length ts \<Longrightarrow> length nh = n0 \<Longrightarrow>
   to_list_loop h (nh @ chain_nodes n0 ts)
     (if k = length ts then None else Some (n0 + k)) acc =
   Some (acc @ map (\<lambda>t. tile_str (h ! t)) (drop k ts))"
proof (induction "length ts - k" arbitrary: k acc)
  case 0
  then show ?case by (simp add: to_list_loop.simps)
next
  case (Suc d)
  then have k: "k < length ts" by linarith
  have ih: "to_list_loop h (nh @ chain_nodes n0 ts)
     (if Suc k = length ts then None else Some (n0 + Suc k)) (acc @ [tile_str (h ! (ts ! k))]) =
     Some ((acc @ [tile_str (h ! (ts ! k))]) @ map (\<lambda>t. tile_str (h ! t)) (drop (Suc k) ts))"
    using Suc.hyps(1) [of "Suc k"] Suc.hyps(2) Suc.prems k by simp
  have d: "drop k ts = ts ! k # drop (Suc k) ts"
    using k by (simp add: Cons_nth_drop_Suc)
  show ?case
    using k Suc.prems ih
    by (subst to_list_loop.simps) (simp add: nth_append nth_chain_nodes d)
qed


text \<open>
  Claim C10.  Start from a fresh chain and append the tiles \<open>ts\<close>, at least one, with
  \<open>append_tile\<close>.  Then \<open>node_first\<close> and \<open>node_last\<close> are set, the first node has no
  predecessor and the last one no successor; following \<open>next_node\<close> from \<open>node_first\<close> visits
  exactly \<open>length ts\<close> nodes, which hold the tiles \<open>ts\<close> in the order of the calls, so
  \<open>to_list\<close> returns their strings in that order; and following \<open>prev_node\<close> from
  \<open>node_last\<close> visits the same nodes in the reverse order.
\<close>

theorem append_tile_chain_invariant:
  assumes "ts \<noteq> []"
    and "fold (\<lambda>t nc. append_tile nc t) ts (nh, new_chain) = (nh', chain')"
  shows "\<exists>ns f l. length ns = length ts
     \<and> node_first chain' = Some f \<and> node_last chain' = Some l
     \<and> prev_node (nh' ! f) = None \<and> next_node (nh' ! l) = None
     \<and> fwd_path nh' (node_first chain') ns
     \<and> map (\<lambda>n. tile (nh' ! n)) ns = ts
     \<and> to_list h nh' chain' = Some (map (\<lambda>t. tile_str (h ! t)) ts)
     \<and> bwd_path nh' (node_last chain') (rev ns)"
proof -
  let ?n = "length nh"
  obtain m where m: "length ts = Suc m" using assms(1) by (cases ts) auto
  have eq: "nh' = nh @ chain_nodes ?n ts"
    "chain' = \<lparr>node_first = Some ?n, node_last = Some (?n + m)\<rparr>"
    using assms m make_chain_eq [of nh ts] by (auto simp: make_chain_def)
  let ?ns = "[?n..<?n + length ts]"
  have 1: "prev_node (nh' ! ?n) = None"
    using m by (simp add: eq nth_append nth_chain_nodes)
  have 2: "next_node (nh' ! (?n + m)) = None"
    using m by (simp add: eq nth_append nth_chain_nodes)
  have 3: "fwd_path nh' (node_first chain') ?ns"
    using fwd_path_chain [of 0 ts nh ?n] m by (simp add: eq)
  have 4: "map (\<lambda>n. tile (nh' ! n)) ?ns = ts"
    by (rule nth_equalityI) (simp_all add: eq nth_append nth_chain_nodes)
  have 5: "to_list h nh' chain' = Some (map (\<lambda>t. tile_str (h ! t)) ts)"
    using to_list_loop_chain [of 0 ts nh ?n h "[]"] m by (simp add: eq to_list_def)
  have 6: "bwd_path nh' (node_last chain') (rev ?ns)"
    using bwd_path_chain [of "length ts" ts nh ?n] m by (simp add: eq)
  have "length ?ns = length ts" by simp
  with 1 2 3 4 5 6 show ?thesis
    unfolding eq(2) by (intro exI [of _ ?ns] exI [of _ ?n] exI [of _ "?n + m"]) simp
qed

theorem append_tile_chain_invariant_witness:
  "[0, 1] \<noteq> ([] :: ref list)
   \<and> fold (\<lambda>t nc. append_tile nc t) [0, 1] ([], new_chain) =
       ([\<lparr>tile = 0, prev_node = None, next_node = Some 1\<rparr>,
         \<lparr>tile = 1, prev_node = Some 0, next_node = None\<rparr>],
        \<lparr>node_first = Some 0, node_last = Some 1\<rparr>)
   \<and> to_list [\<lparr>value_left = 0, value_right = 4\<rparr>, \<lparr>value_left = 4, value_right = 2\<rparr>]
        [\<lparr>tile = 0, prev_node = None, next_node = Some 1\<rparr>,
         \<lparr>tile = 1, prev_node = Some 0, next_node = None\<rparr>]
        \<lparr>node_first = Some 0, node_last = Some 1\<rparr> = Some [''04'', ''42'']"
proof -
  have a: "[0, 1] \<noteq> ([] :: ref list)" by simp
  have b: "fold (\<lambda>t nc. append_tile nc t) [0, 1] ([], new_chain) =
       ([\<lparr>tile = 0, prev_node = None, next_node = Some 1\<rparr>,
         \<lparr>tile = 1, prev_node = Some 0, next_node = None\<rparr>],
        \<lparr>node_first = Some 0, node_last = Some 1\<rparr>)"
    by (simp add: append_tile_def new_chain_def Let_def)
  have c: "map (\<lambda>t. tile_str ([\<lparr>value_left = 0, value_right = 4\<rparr>,
      \<lparr>value_left = 4, value_right = 2\<rparr>] ! t)) [0, 1] = [''04'', ''42'']"
    by (simp add: tile_str_def str_int_def str_nat.simps digit_char_def)
  show ?thesis
    using append_tile_chain_invariant [OF a b,
        of "[\<lparr>value_left = 0, value_right = 4\<rparr>, \<lparr>value_left = 4, value_right = 2\<rparr>]"] a b c
    by auto
qed

section \<open>The search on the store and on tile values\<close>

subsection \<open>Copies\<close>

lemma tile_eta [simp]: "\<lparr>value_left = value_left t, value_right = value_right t\<rparr> = (t::DominoTile)"
  by simp

lemma clone_all_eq:
  "\<forall>r\<in>set rs. r < length h \<Longrightarrow>
   clone_all h rs = (h @ map ((!) h) rs, [length h..<length h + length rs])"
proof (induction rs arbitrary: h)
  case Nil
  then show ?case by simp
next
  case (Cons r rs)
  have v: "\<forall>x\<in>set rs. x < length (h @ [h ! r])" using Cons.prems by auto
  have m: "map ((!) (h @ [h ! r])) rs = map ((!) h) rs"
    using Cons.prems by (auto simp: nth_append)
  have u: "[length h..<length h + length (r # rs)] =
      length h # [length (h @ [h ! r])..<length (h @ [h ! r]) + length rs]"
    by (subst upt_rec) simp
  show ?case
    unfolding u using Cons.IH [OF v] m by (simp add: clone_def)
qed

lemma fresh_lists_append:
  "fresh_lists n h a va \<Longrightarrow> fresh_lists n h b vb \<Longrightarrow> fresh_lists n h (a @ b) (va @ vb)"
  by (simp add: fresh_lists_def list_all2_appendI)

lemma fresh_lists_mono:
  assumes "fresh_lists n h new vals" "n' \<le> n" "length h \<le> length h'"
    and "\<And>r. n \<le> r \<Longrightarrow> r < length h \<Longrightarrow> h' ! r = h ! r"
  shows "fresh_lists n' h' new vals"
  using assms(1) unfolding fresh_lists_def
proof (rule list_all2_mono)
  fix rs vs
  assume a: "distinct rs \<and> (\<forall>r\<in>set rs. n \<le> r \<and> r < length h) \<and> map ((!) h) rs = vs"
  then have "map ((!) h') rs = map ((!) h) rs" using assms(4) by auto
  with a assms(2,3) show "distinct rs \<and> (\<forall>r\<in>set rs. n' \<le> r \<and> r < length h') \<and> map ((!) h') rs = vs"
    by auto
qed

lemma fresh_lists_clone:
  "\<forall>r\<in>set rs. r < length h \<Longrightarrow>
   fresh_lists (length h) (h @ map ((!) h) rs) [[length h..<length h + length rs]] [map ((!) h) rs]"
  by (auto simp: fresh_lists_def nth_append intro!: nth_equalityI)

subsection \<open>The permutations\<close>

lemma swap_list_twice:
  "a < length xs \<Longrightarrow> b < length xs \<Longrightarrow> swap_list a b (swap_list a b xs) = xs"
  by (rule nth_equalityI) (auto simp: swap_list_def nth_list_update)

lemma length_swap_list [simp]: "length (swap_list a b xs) = length xs"
  by (simp add: swap_list_def)

lemma set_swap_list:
  "a < length xs \<Longrightarrow> b < length xs \<Longrightarrow> set (swap_list a b xs) = set xs"
proof -
  assume a: "a < length xs" and b: "b < length xs"
  have "mset (swap_list a b xs) = mset xs"
    using a b by (simp add: swap_list_def mset_swap)
  then show ?thesis by (rule mset_eq_setD)
qed

lemma map_swap_list:
  "a < length xs \<Longrightarrow> b < length xs \<Longrightarrow> map f (swap_list a b xs) = swap_list a b (map f xs)"
  by (simp add: swap_list_def map_update)

lemma p_tiles_swap [simp]: "p_tiles (swap a b s) = swap_list a b (p_tiles s)"
  by (simp add: swap_def swap_list_def)

lemma p_heap_swap [simp]: "p_heap (swap a b s) = p_heap s"
  by (simp add: swap_def)

lemma p_result_swap [simp]: "p_result (swap a b s) = p_result s"
  by (simp add: swap_def)

lemma fresh_lists_Nil [simp]: "fresh_lists n h [] []"
  by (simp add: fresh_lists_def)

lemma permute_spec:
  "start \<le> length (p_tiles s) \<Longrightarrow> \<forall>r\<in>set (p_tiles s). r < length (p_heap s) \<Longrightarrow>
     \<exists>e new. permute start s = s\<lparr>p_heap := p_heap s @ e, p_result := p_result s @ new\<rparr>
        \<and> fresh_lists (length (p_heap s)) (p_heap s @ e) new
             (perms_swap start (map ((!) (p_heap s)) (p_tiles s)))"
  "set js \<subseteq> {start..<length (p_tiles s)} \<Longrightarrow> \<forall>r\<in>set (p_tiles s). r < length (p_heap s) \<Longrightarrow>
     \<exists>e new. permute_loop start js s = s\<lparr>p_heap := p_heap s @ e, p_result := p_result s @ new\<rparr>
        \<and> fresh_lists (length (p_heap s)) (p_heap s @ e) new
             (concat (map (\<lambda>i. perms_swap (Suc start)
                (swap_list start i (map ((!) (p_heap s)) (p_tiles s)))) js))"
proof (induction start s and start js s rule: permute_permute_loop.induct)
  case (1 start s)
  let ?h = "p_heap s" and ?ts = "p_tiles s"
  show ?case
  proof (cases "start = length ?ts")
    case True
    have p: "permute start s =
        s\<lparr>p_heap := ?h @ map ((!) ?h) ?ts,
          p_result := p_result s @ [[length ?h..<length ?h + length ?ts]]\<rparr>"
      using True "1.prems"(2) by (simp add: permute.simps clone_all_eq)
    have v: "perms_swap start (map ((!) ?h) ?ts) = [map ((!) ?h) ?ts]"
      using True by (simp add: perms_swap.simps)
    show ?thesis
      unfolding p v using fresh_lists_clone [OF "1.prems"(2)] by blast
  next
    case False
    then have lt: "start < length ?ts" using "1.prems"(1) by simp
    have p: "permute start s = permute_loop start [start..<length ?ts] s"
      using False by (simp add: permute.simps)
    have v: "perms_swap start (map ((!) ?h) ?ts) =
        concat (map (\<lambda>i. perms_swap (Suc start) (swap_list start i (map ((!) ?h) ?ts)))
          [start..<length ?ts])"
      using lt by (subst perms_swap.simps) simp
    show ?thesis
      unfolding p v using "1.IH" [OF False _ "1.prems"(2)] by simp
  qed
next
  case (2 start s)
  have "s = s\<lparr>p_heap := p_heap s @ [], p_result := p_result s @ []\<rparr>" by simp
  then show ?case by (metis (no_types) permute_loop.simps(1) concat.simps(1) list.simps(8)
        fresh_lists_Nil append_Nil2)
next
  case (3 start i js s)
  let ?h = "p_heap s" and ?ts = "p_tiles s"
  let ?vals = "map ((!) ?h) ?ts"
  have i: "start \<le> i" "i < length ?ts" and js: "set js \<subseteq> {start..<length ?ts}"
    using "3.prems"(1) by auto
  then have st: "start < length ?ts" by simp
  let ?s1 = "swap start i s"
  have v1: "\<forall>r\<in>set (p_tiles ?s1). r < length (p_heap ?s1)"
    using "3.prems"(2) i st by (simp add: set_swap_list)
  have l1: "start + 1 \<le> length (p_tiles ?s1)" using st by simp
  obtain e1 new1 where
    s2: "permute (Suc start) ?s1 = ?s1\<lparr>p_heap := ?h @ e1, p_result := p_result s @ new1\<rparr>"
    and f1: "fresh_lists (length ?h) (?h @ e1) new1
               (perms_swap (Suc start) (swap_list start i ?vals))"
    using "3.IH"(1) [OF l1 v1] i st by (auto simp: map_swap_list)
  let ?s3 = "swap start i (permute (start + 1) ?s1)"
  have t3: "p_tiles ?s3 = ?ts" "p_heap ?s3 = ?h @ e1" "p_result ?s3 = p_result s @ new1"
    using i st by (simp_all add: s2 swap_list_twice)
  have s3: "?s3 = s\<lparr>p_heap := ?h @ e1, p_result := p_result s @ new1\<rparr>"
    using t3 by (simp add: s2 swap_def)
  have v3: "\<forall>r\<in>set (p_tiles ?s3). r < length (p_heap ?s3)"
    unfolding t3 using "3.prems"(2) by auto
  have j3: "set js \<subseteq> {start..<length (p_tiles ?s3)}" unfolding t3 using js by simp
  have m3: "map ((!) (?h @ e1)) ?ts = ?vals"
    using "3.prems"(2) by (auto simp: nth_append)
  obtain e2 new2 where
    s4: "permute_loop start js ?s3 =
           ?s3\<lparr>p_heap := (?h @ e1) @ e2, p_result := (p_result s @ new1) @ new2\<rparr>"
    and f2: "fresh_lists (length (?h @ e1)) ((?h @ e1) @ e2) new2
               (concat (map (\<lambda>i. perms_swap (Suc start) (swap_list start i ?vals)) js))"
    using "3.IH"(2) [OF j3 v3] unfolding t3 m3 by auto
  have r: "permute_loop start (i # js) s =
      s\<lparr>p_heap := ?h @ (e1 @ e2), p_result := p_result s @ (new1 @ new2)\<rparr>"
  proof -
    have "permute_loop start (i # js) s = permute_loop start js ?s3"
      by (simp only: permute_loop.simps)
    also note s4
    also have "?s3\<lparr>p_heap := (?h @ e1) @ e2, p_result := (p_result s @ new1) @ new2\<rparr> =
        s\<lparr>p_heap := ?h @ (e1 @ e2), p_result := p_result s @ (new1 @ new2)\<rparr>"
      unfolding s3 by simp
    finally show ?thesis .
  qed
  have g1: "fresh_lists (length ?h) (?h @ (e1 @ e2)) new1
               (perms_swap (Suc start) (swap_list start i ?vals))"
    using f1 by (rule fresh_lists_mono) (auto simp: nth_append)
  have g2: "fresh_lists (length ?h) (?h @ (e1 @ e2)) new2
               (concat (map (\<lambda>i. perms_swap (Suc start) (swap_list start i ?vals)) js))"
    using f2 by (rule fresh_lists_mono) auto
  show ?case
    unfolding r using fresh_lists_append [OF g1 g2] by auto
qed

subsection \<open>The orientations\<close>

lemma flip_flip: "r < length h \<Longrightarrow> flip (flip h r) r = h"
  by (rule nth_equalityI) (auto simp: flip_def nth_list_update)

lemma length_flip [simp]: "length (flip h r) = length h"
  by (simp add: flip_def)

lemma flip_append: "r < length h \<Longrightarrow> flip (h @ e) r = flip h r @ e"
  by (simp add: flip_def list_update_append nth_append)

lemma nth_flip_same: "r < length h \<Longrightarrow> flip h r ! r = flipped (h ! r)"
  by (simp add: flip_def flipped_def)

lemma nth_flip_other: "q \<noteq> r \<Longrightarrow> flip h r ! q = h ! q"
  by (simp add: flip_def)

lemma map_flip_distinct:
  assumes "distinct ts" "index < length ts" "\<forall>r\<in>set ts. r < length h"
  shows "map ((!) (flip h (ts ! index))) ts =
         (map ((!) h) ts)[index := flipped (map ((!) h) ts ! index)]"
proof (rule nth_equalityI)
  show "length (map ((!) (flip h (ts ! index))) ts) =
        length ((map ((!) h) ts)[index := flipped (map ((!) h) ts ! index)])" by simp
next
  fix k assume "k < length (map ((!) (flip h (ts ! index))) ts)"
  then have k: "k < length ts" by simp
  show "map ((!) (flip h (ts ! index))) ts ! k =
        (map ((!) h) ts)[index := flipped (map ((!) h) ts ! index)] ! k"
  proof (cases "k = index")
    case True
    then show ?thesis using assms by (simp add: nth_flip_same)
  next
    case False
    then have "ts ! k \<noteq> ts ! index"
      using assms(1,2) k by (simp add: nth_eq_iff_index_eq)
    then show ?thesis using False k assms(2) by (simp add: nth_flip_other)
  qed
qed

lemma flip_rec_spec:
  "index \<le> length ts \<Longrightarrow> distinct ts \<Longrightarrow> \<forall>r\<in>set ts. r < length (f_heap s) \<Longrightarrow>
   \<exists>e new. flip_rec ts index s =
               Some \<lparr>f_heap = f_heap s @ e, f_result = f_result s @ new\<rparr>
      \<and> fresh_lists (length (f_heap s)) (f_heap s @ e) new
           (flips_val index (map ((!) (f_heap s)) ts))"
proof (induction "length ts - index" arbitrary: index s)
  case 0
  then have eq: "index = length ts" by simp
  have v: "flips_val index (map ((!) (f_heap s)) ts) = [map ((!) (f_heap s)) ts]"
    using eq by (simp add: flips_val.simps)
  have "flip_rec ts index s =
      Some \<lparr>f_heap = f_heap s @ map ((!) (f_heap s)) ts,
            f_result = f_result s @ [[length (f_heap s)..<length (f_heap s) + length ts]]\<rparr>"
    using eq "0.prems"(3) by (subst flip_rec.simps) (simp add: clone_all_eq)
  then show ?case
    unfolding v using fresh_lists_clone [OF "0.prems"(3)] by blast
next
  case (Suc d)
  let ?h = "f_heap s" and ?r = "ts ! index"
  let ?vals = "map ((!) ?h) ts"
  have lt: "index < length ts" using Suc.hyps(2) by simp
  then have r: "?r < length ?h" using Suc.prems(3) by simp
  have d: "d = length ts - Suc index" using Suc.hyps(2) by simp
  obtain e1 new1 where
    s1: "flip_rec ts (Suc index) s = Some \<lparr>f_heap = ?h @ e1, f_result = f_result s @ new1\<rparr>"
    and f1: "fresh_lists (length ?h) (?h @ e1) new1 (flips_val (Suc index) ?vals)"
    using Suc.hyps(1) [OF d _ Suc.prems(2,3)] lt by auto
  let ?s1 = "\<lparr>f_heap = flip ?h ?r @ e1, f_result = f_result s @ new1\<rparr>"
  have v1: "\<forall>q\<in>set ts. q < length (f_heap ?s1)" using Suc.prems(3) by auto
  have m1: "map ((!) (f_heap ?s1)) ts = ?vals[index := flipped (?vals ! index)]"
  proof -
    have "map ((!) (flip ?h ?r @ e1)) ts = map ((!) (flip ?h ?r)) ts"
      using Suc.prems(3) by (auto simp: nth_append)
    then show ?thesis
      using map_flip_distinct [OF Suc.prems(2) lt Suc.prems(3)] by simp
  qed
  obtain e2 new2 where
    s2: "flip_rec ts (Suc index) ?s1 =
          Some \<lparr>f_heap = (flip ?h ?r @ e1) @ e2, f_result = (f_result s @ new1) @ new2\<rparr>"
    and f2: "fresh_lists (length (flip ?h ?r @ e1)) ((flip ?h ?r @ e1) @ e2) new2
               (flips_val (Suc index) (?vals[index := flipped (?vals ! index)]))"
    using Suc.hyps(1) [OF d _ Suc.prems(2) v1] lt unfolding m1 by auto
  have undo: "flip ((flip ?h ?r @ e1) @ e2) ?r = ?h @ (e1 @ e2)"
    using r by (simp add: flip_append flip_flip)
  have res: "flip_rec ts index s =
      Some \<lparr>f_heap = ?h @ (e1 @ e2), f_result = f_result s @ (new1 @ new2)\<rparr>"
    using lt r by (subst flip_rec.simps) (simp add: s1 flip_append s2 flip_flip)
  have g1: "fresh_lists (length ?h) (?h @ (e1 @ e2)) new1 (flips_val (Suc index) ?vals)"
    using f1 by (rule fresh_lists_mono) (auto simp: nth_append)
  have g2: "fresh_lists (length ?h) (?h @ (e1 @ e2)) new2
               (flips_val (Suc index) (?vals[index := flipped (?vals ! index)]))"
    using f2 by (rule fresh_lists_mono) (auto simp: nth_append)
  have v: "flips_val index ?vals =
      flips_val (Suc index) ?vals @
      flips_val (Suc index) (?vals[index := flipped (?vals ! index)])"
    using lt by (subst flips_val.simps) simp
  show ?case
    unfolding res v using fresh_lists_append [OF g1 g2] by blast
qed

lemma generate_flips_spec:
  assumes "distinct ts" "\<forall>r\<in>set ts. r < length h"
  shows "\<exists>e new. generate_flips h ts = Some (h @ e, new)
      \<and> fresh_lists (length h) (h @ e) new (flips_val 0 (map ((!) h) ts))"
  using flip_rec_spec [of 0 ts "\<lparr>f_heap = h, f_result = []\<rparr>"] assms
  by (auto simp: generate_flips_def)

lemma generate_permutations_spec:
  assumes "\<forall>r\<in>set ts. r < length h"
  shows "\<exists>e new. generate_permutations h ts = (h @ e, ts, new)
      \<and> fresh_lists (length h) (h @ e) new (perms_swap 0 (map ((!) h) ts))"
  using permute_spec(1) [of 0 "\<lparr>p_heap = h, p_tiles = ts, p_result = []\<rparr>"] assms
  by (auto simp: generate_permutations_def)

subsection \<open>The loops of the solver\<close>

lemma is_valid_loop_iff:
  "is_valid_loop h rs js \<longleftrightarrow>
     (\<forall>i\<in>set js. value_right (h ! (rs ! i)) = value_left (h ! (rs ! (i + 1))))"
  by (induction js) auto

lemma check_valid_loop_eq: "check_valid_loop h rs js = is_valid_loop h rs js"
  by (induction js) auto

lemma chain_ok_iff:
  "chain_ok vs \<longleftrightarrow> (\<forall>i. Suc i < length vs \<longrightarrow> value_right (vs ! i) = value_left (vs ! Suc i))"
proof (induction vs rule: chain_ok.induct)
  case (1 a b rest)
  show ?case
  proof
    assume l: "chain_ok (a # b # rest)"
    show "\<forall>i. Suc i < length (a # b # rest) \<longrightarrow>
        value_right ((a # b # rest) ! i) = value_left ((a # b # rest) ! Suc i)"
    proof (intro allI impI)
      fix i assume "Suc i < length (a # b # rest)"
      then show "value_right ((a # b # rest) ! i) = value_left ((a # b # rest) ! Suc i)"
        using l 1 by (cases i) auto
    qed
  next
    assume r: "\<forall>i. Suc i < length (a # b # rest) \<longrightarrow>
        value_right ((a # b # rest) ! i) = value_left ((a # b # rest) ! Suc i)"
    have "value_right a = value_left b" using r [rule_format, of 0] by simp
    moreover have "\<forall>i. Suc i < length (b # rest) \<longrightarrow>
        value_right ((b # rest) ! i) = value_left ((b # rest) ! Suc i)"
    proof (intro allI impI)
      fix i assume "Suc i < length (b # rest)"
      then show "value_right ((b # rest) ! i) = value_left ((b # rest) ! Suc i)"
        using r [rule_format, of "Suc i"] by simp
    qed
    ultimately show "chain_ok (a # b # rest)" using 1 by simp
  qed
qed simp_all

lemma is_valid_chain_iff: "is_valid_chain h rs \<longleftrightarrow> chain_ok (map ((!) h) rs)"
proof -
  have "is_valid_chain h rs \<longleftrightarrow>
      (\<forall>i. Suc i < length rs \<longrightarrow> value_right (h ! (rs ! i)) = value_left (h ! (rs ! Suc i)))"
    by (auto simp: is_valid_chain_def is_valid_loop_iff)
  then show ?thesis by (simp add: chain_ok_iff)
qed

lemma check_chain_valid_eq: "check_chain_valid h rs = is_valid_chain h rs"
  by (simp add: check_chain_valid_def is_valid_chain_def check_valid_loop_eq)

lemma variants_loop_find:
  "variants_loop h nh vs = map_option (make_chain nh) (find (is_valid_chain h) vs)"
  by (induction vs) auto

lemma flips_loop_eq: "flips_loop h nh vs = variants_loop h nh vs"
  by (induction vs) (auto simp: check_chain_valid_eq)

lemma perms_loop_eq: "perms_loop h nh ps = permutations_loop h nh ps"
  by (induction ps arbitrary: h) (auto simp: flips_loop_eq split: Option.bind_split option.splits)

lemma find_append_case:
  "find P (xs @ ys) = (case find P xs of None \<Rightarrow> find P ys | Some x \<Rightarrow> Some x)"
  by (induction xs) auto

lemma fresh_lists_Cons:
  "fresh_lists n h (p # ps) vals \<longleftrightarrow>
     (\<exists>v vs. vals = v # vs \<and> distinct p \<and> (\<forall>r\<in>set p. n \<le> r \<and> r < length h)
        \<and> map ((!) h) p = v \<and> fresh_lists n h ps vs)"
  by (auto simp: fresh_lists_def list_all2_Cons1)

lemma find_fresh:
  "fresh_lists n h new vals \<Longrightarrow>
   (case find chain_ok vals of
      None \<Rightarrow> find (is_valid_chain h) new = None
    | Some v \<Rightarrow> \<exists>rs. find (is_valid_chain h) new = Some rs \<and> distinct rs
         \<and> (\<forall>r\<in>set rs. n \<le> r \<and> r < length h) \<and> map ((!) h) rs = v)"
proof (induction new arbitrary: vals)
  case Nil
  then show ?case by (simp add: fresh_lists_def)
next
  case (Cons p ps)
  then obtain v vs where v: "vals = v # vs" "distinct p" "\<forall>r\<in>set p. n \<le> r \<and> r < length h"
    "map ((!) h) p = v" "fresh_lists n h ps vs"
    by (auto simp: fresh_lists_Cons)
  show ?case
  proof (cases "chain_ok v")
    case True
    then show ?thesis using v by (auto simp: is_valid_chain_iff split: option.splits)
  next
    case False
    then show ?thesis using v Cons.IH [OF v(5)]
      by (auto simp: is_valid_chain_iff split: option.splits)
  qed
qed

lemma permutations_loop_spec:
  "fresh_lists n0 h perms pvals \<Longrightarrow>
   \<exists>e res nh'. permutations_loop h nh perms = Some (res, h @ e, nh') \<and>
     (case find chain_ok (concat (map (flips_val 0) pvals)) of
        None \<Rightarrow> res = None \<and> nh' = nh
      | Some v \<Rightarrow> \<exists>rs chain. res = Some chain \<and> make_chain nh rs = (nh', chain)
           \<and> distinct rs \<and> (\<forall>r\<in>set rs. length h \<le> r \<and> r < length (h @ e))
           \<and> map ((!) (h @ e)) rs = v)"
proof (induction perms arbitrary: h pvals)
  case Nil
  then have "pvals = []" by (simp add: fresh_lists_def)
  then show ?case by simp
next
  case (Cons p ps)
  then obtain v vs where v: "pvals = v # vs" "distinct p" "\<forall>r\<in>set p. n0 \<le> r \<and> r < length h"
    "map ((!) h) p = v" "fresh_lists n0 h ps vs"
    by (auto simp: fresh_lists_Cons)
  have valid: "\<forall>r\<in>set p. r < length h" using v(3) by simp
  obtain e1 variants where
    g: "generate_flips h p = Some (h @ e1, variants)"
    and f: "fresh_lists (length h) (h @ e1) variants (flips_val 0 v)"
    using generate_flips_spec [OF v(2) valid] v(4) by auto
  have split: "find chain_ok (concat (map (flips_val 0) pvals)) =
      (case find chain_ok (flips_val 0 v) of
         None \<Rightarrow> find chain_ok (concat (map (flips_val 0) vs)) | Some x \<Rightarrow> Some x)"
    by (simp add: v(1) find_append_case)
  show ?case
  proof (cases "find chain_ok (flips_val 0 v)")
    case (Some w)
    then obtain rs where rs: "find (is_valid_chain (h @ e1)) variants = Some rs" "distinct rs"
      "\<forall>r\<in>set rs. length h \<le> r \<and> r < length (h @ e1)" "map ((!) (h @ e1)) rs = w"
      using find_fresh [OF f] by auto
    obtain nh' chain where mc: "make_chain nh rs = (nh', chain)" by (cases "make_chain nh rs")
    have "permutations_loop h nh (p # ps) = Some (Some chain, h @ e1, nh')"
      by (simp add: g variants_loop_find rs(1) mc)
    then show ?thesis
      unfolding split Some using rs mc by auto
  next
    case None
    then have nf: "find (is_valid_chain (h @ e1)) variants = None"
      using find_fresh [OF f] by simp
    have step: "permutations_loop h nh (p # ps) = permutations_loop (h @ e1) nh ps"
      by (simp add: g variants_loop_find nf)
    have f': "fresh_lists n0 (h @ e1) ps vs"
      using v(5) by (rule fresh_lists_mono) (auto simp: nth_append)
    obtain e2 res nh' where
      r: "permutations_loop (h @ e1) nh ps = Some (res, (h @ e1) @ e2, nh')"
      and c: "(case find chain_ok (concat (map (flips_val 0) vs)) of
        None \<Rightarrow> res = None \<and> nh' = nh
      | Some v \<Rightarrow> \<exists>rs chain. res = Some chain \<and> make_chain nh rs = (nh', chain)
           \<and> distinct rs \<and> (\<forall>r\<in>set rs. length (h @ e1) \<le> r \<and> r < length ((h @ e1) @ e2))
           \<and> map ((!) ((h @ e1) @ e2)) rs = v)"
      using Cons.IH [OF f'] by blast
    have r': "permutations_loop h nh (p # ps) = Some (res, h @ (e1 @ e2), nh')"
      using step r by simp
    show ?thesis
    proof (cases "find chain_ok (concat (map (flips_val 0) vs))")
      case None
      then show ?thesis using c r' \<open>find chain_ok (flips_val 0 v) = None\<close>
        unfolding split by auto
    next
      case (Some w)
      then obtain rs chain where "res = Some chain" "make_chain nh rs = (nh', chain)"
        "distinct rs" "\<forall>r\<in>set rs. length (h @ e1) \<le> r \<and> r < length ((h @ e1) @ e2)"
        "map ((!) ((h @ e1) @ e2)) rs = w"
        using c by auto
      then have "\<exists>rs chain. res = Some chain \<and> make_chain nh rs = (nh', chain)
           \<and> distinct rs \<and> (\<forall>r\<in>set rs. length h \<le> r \<and> r < length (h @ (e1 @ e2)))
           \<and> map ((!) (h @ (e1 @ e2))) rs = w"
        by (intro exI [of _ rs] exI [of _ chain]) auto
      then show ?thesis using r' Some \<open>find chain_ok (flips_val 0 v) = None\<close>
        unfolding split by auto
    qed
  qed
qed

lemma build_spec:
  assumes "\<forall>r\<in>set ts. r < length h"
  shows "\<exists>e res nh'. build_if_possible h nh ts = Some (res, h @ e, nh', ts) \<and>
     (case find chain_ok (candidates (map ((!) h) ts)) of
        None \<Rightarrow> res = None \<and> nh' = nh
      | Some v \<Rightarrow> \<exists>rs chain. res = Some chain \<and> make_chain nh rs = (nh', chain)
           \<and> distinct rs \<and> (\<forall>r\<in>set rs. length h \<le> r \<and> r < length (h @ e))
           \<and> map ((!) (h @ e)) rs = v)"
proof -
  obtain e0 perms where
    g: "generate_permutations h ts = (h @ e0, ts, perms)"
    and f: "fresh_lists (length h) (h @ e0) perms (perms_swap 0 (map ((!) h) ts))"
    using generate_permutations_spec [OF assms] by auto
  obtain e1 res nh' where
    r: "permutations_loop (h @ e0) nh perms = Some (res, (h @ e0) @ e1, nh')"
    and c: "(case find chain_ok (candidates (map ((!) h) ts)) of
        None \<Rightarrow> res = None \<and> nh' = nh
      | Some v \<Rightarrow> \<exists>rs chain. res = Some chain \<and> make_chain nh rs = (nh', chain)
           \<and> distinct rs \<and> (\<forall>r\<in>set rs. length (h @ e0) \<le> r \<and> r < length ((h @ e0) @ e1))
           \<and> map ((!) ((h @ e0) @ e1)) rs = v)"
    using permutations_loop_spec [OF f, of nh] unfolding candidates_def by blast
  have b: "build_if_possible h nh ts = Some (res, h @ (e0 @ e1), nh', ts)"
    by (simp add: build_if_possible_def g r)
  show ?thesis
  proof (cases "find chain_ok (candidates (map ((!) h) ts))")
    case None
    then show ?thesis using b c by auto
  next
    case (Some w)
    then obtain rs chain where "res = Some chain" "make_chain nh rs = (nh', chain)"
        "distinct rs" "\<forall>r\<in>set rs. length (h @ e0) \<le> r \<and> r < length ((h @ e0) @ e1)"
        "map ((!) ((h @ e0) @ e1)) rs = w"
      using c by auto
    then have "\<exists>rs chain. res = Some chain \<and> make_chain nh rs = (nh', chain)
           \<and> distinct rs \<and> (\<forall>r\<in>set rs. length h \<le> r \<and> r < length (h @ (e0 @ e1)))
           \<and> map ((!) (h @ (e0 @ e1))) rs = w"
      by (intro exI [of _ rs] exI [of _ chain]) auto
    then show ?thesis using b Some by auto
  qed
qed

subsection \<open>The arrangements that are tried\<close>

lemma take_swap_list:
  "start \<le> i \<Longrightarrow> take start (swap_list start i xs) = take start xs"
  by (simp add: swap_list_def)

lemma mset_swap_list:
  "a < length xs \<Longrightarrow> b < length xs \<Longrightarrow> mset (swap_list a b xs) = mset xs"
  by (simp add: swap_list_def mset_swap)

lemma mset_drop_swap_list:
  assumes "start \<le> i" "i < length xs"
  shows "mset (drop start (swap_list start i xs)) = mset (drop start xs)"
proof -
  let ?zs = "swap_list start i xs"
  have "mset (take start ?zs) + mset (drop start ?zs) = mset ?zs"
    by (metis append_take_drop_id mset_append)
  moreover have "mset (take start xs) + mset (drop start xs) = mset xs"
    by (metis append_take_drop_id mset_append)
  moreover have "mset ?zs = mset xs" using assms by (simp add: mset_swap_list)
  ultimately have "mset (take start xs) + mset (drop start ?zs) =
      mset (take start xs) + mset (drop start xs)"
    using assms(1) by (simp add: take_swap_list)
  then show ?thesis by (rule add_left_imp_eq)
qed

lemma nth_swap_list_start:
  "start < length xs \<Longrightarrow> i < length xs \<Longrightarrow> swap_list start i xs ! start = xs ! i"
  by (simp add: swap_list_def nth_list_update)

lemma length_perms_swap:
  "ys \<in> set (perms_swap start xs) \<Longrightarrow> length ys = length xs"
proof (induction "length xs - start" arbitrary: start xs)
  case 0
  then show ?case by (simp add: perms_swap.simps)
next
  case (Suc d)
  then have lt: "start < length xs" by simp
  from Suc.prems obtain i where i: "start \<le> i" "i < length xs"
    "ys \<in> set (perms_swap (Suc start) (swap_list start i xs))"
    using lt by (subst (asm) perms_swap.simps) auto
  have "d = length (swap_list start i xs) - Suc start" using Suc.hyps(2) by simp
  from Suc.hyps(1) [OF this i(3)] show ?case by simp
qed

lemma perms_swap_set:
  "start \<le> length xs \<Longrightarrow>
   set (perms_swap start xs) =
     {ys. take start ys = take start xs \<and> mset (drop start ys) = mset (drop start xs)}"
proof (induction "length xs - start" arbitrary: start xs)
  case 0
  then have eq: "start = length xs" by simp
  have "\<And>ys. take start ys = take start xs \<and> mset (drop start ys) = mset (drop start xs)
        \<longleftrightarrow> ys = xs"
  proof
    fix ys
    assume a: "take start ys = take start xs \<and> mset (drop start ys) = mset (drop start xs)"
    then have "drop start ys = []" using eq by simp
    then have "ys = take start ys" by (metis append_Nil2 append_take_drop_id)
    then show "ys = xs" using a eq by simp
  next
    fix ys
    assume "ys = xs"
    then show "take start ys = take start xs \<and> mset (drop start ys) = mset (drop start xs)"
      by simp
  qed
  then show ?case using eq by (simp add: perms_swap.simps)
next
  case (Suc d)
  then have lt: "start < length xs" by simp
  have d: "\<And>i. d = length (swap_list start i xs) - Suc start" using Suc.hyps(2) by simp
  have le: "\<And>i. Suc start \<le> length (swap_list start i xs)" using lt by simp
  have ih: "\<And>i. set (perms_swap (Suc start) (swap_list start i xs)) =
      {ys. take (Suc start) ys = take (Suc start) (swap_list start i xs)
         \<and> mset (drop (Suc start) ys) = mset (drop (Suc start) (swap_list start i xs))}"
    using Suc.hyps(1) [OF d le] .
  have unf: "set (perms_swap start xs) =
      (\<Union>i\<in>{start..<length xs}. set (perms_swap (Suc start) (swap_list start i xs)))"
    using lt by (subst perms_swap.simps) auto
  show ?case
  proof (intro set_eqI iffI)
    fix ys
    assume "ys \<in> set (perms_swap start xs)"
    then obtain i where i: "start \<le> i" "i < length xs"
      and t: "take (Suc start) ys = take (Suc start) (swap_list start i xs)"
      and m: "mset (drop (Suc start) ys) = mset (drop (Suc start) (swap_list start i xs))"
      unfolding unf ih by auto
    let ?zs = "swap_list start i xs"
    have ly: "length ys = length xs"
      using \<open>ys \<in> set (perms_swap start xs)\<close> by (rule length_perms_swap)
    have t0: "take start ys = take start ?zs"
      using t by (metis take_take min.absorb1 le_Suc_eq le_refl)
    have n: "ys ! start = ?zs ! start"
      using t by (metis lessI nth_take)
    have "drop start ys = ys ! start # drop (Suc start) ys"
      using lt ly by (simp add: Cons_nth_drop_Suc)
    moreover have "drop start ?zs = ?zs ! start # drop (Suc start) ?zs"
      using lt by (simp add: Cons_nth_drop_Suc)
    ultimately have "mset (drop start ys) = mset (drop start ?zs)"
      using m n by simp
    then show "ys \<in> {ys. take start ys = take start xs
        \<and> mset (drop start ys) = mset (drop start xs)}"
      using t0 i by (simp add: take_swap_list mset_drop_swap_list)
  next
    fix ys
    assume "ys \<in> {ys. take start ys = take start xs
        \<and> mset (drop start ys) = mset (drop start xs)}"
    then have t: "take start ys = take start xs"
      and m: "mset (drop start ys) = mset (drop start xs)" by auto
    have "length (drop start ys) = length (drop start xs)"
      using m by (metis size_mset)
    moreover have "length (take start ys) = length (take start xs)" using t by simp
    ultimately have ly: "length ys = length xs"
      by (metis append_take_drop_id length_append)
    have dy: "drop start ys = ys ! start # drop (Suc start) ys"
      using lt ly by (simp add: Cons_nth_drop_Suc)
    then have "ys ! start \<in># mset (drop start xs)" using m by (metis list.set_intros(1) set_mset_mset)
    then have "ys ! start \<in> set (drop start xs)" by simp
    then obtain k where k: "k < length (drop start xs)" "drop start xs ! k = ys ! start"
      by (auto simp: in_set_conv_nth)
    define i where "i = start + k"
    have i: "start \<le> i" "i < length xs" "xs ! i = ys ! start"
      using k lt by (auto simp: i_def)
    let ?zs = "swap_list start i xs"
    have zs: "?zs ! start = ys ! start" using lt i by (simp add: nth_swap_list_start)
    have dz: "drop start ?zs = ?zs ! start # drop (Suc start) ?zs"
      using lt by (simp add: Cons_nth_drop_Suc)
    have "take (Suc start) ys = take start ys @ [ys ! start]"
      using lt ly by (simp add: take_Suc_conv_app_nth)
    moreover have "take (Suc start) ?zs = take start ?zs @ [?zs ! start]"
      using lt by (simp add: take_Suc_conv_app_nth)
    ultimately have t': "take (Suc start) ys = take (Suc start) ?zs"
      using t zs i(1) by (simp add: take_swap_list)
    have "mset (drop start ?zs) = mset (drop start ys)"
      using m i by (simp add: mset_drop_swap_list)
    then have m': "mset (drop (Suc start) ys) = mset (drop (Suc start) ?zs)"
      using dy dz zs by simp
    have "ys \<in> set (perms_swap (Suc start) ?zs)" unfolding ih using t' m' by simp
    then show "ys \<in> set (perms_swap start xs)" unfolding unf using i by auto
  qed
qed

lemma perms_swap_0_set: "set (perms_swap 0 xs) = {ys. mset ys = mset xs}"
  using perms_swap_set [of 0 xs] by simp

lemma flips_val_set:
  "index \<le> length vs \<Longrightarrow>
   set (flips_val index vs) =
     {ws. length ws = length vs \<and> take index ws = take index vs
        \<and> (\<forall>k. index \<le> k \<and> k < length vs \<longrightarrow> ws ! k = vs ! k \<or> ws ! k = flipped (vs ! k))}"
proof (induction "length vs - index" arbitrary: index vs)
  case 0
  then have eq: "index = length vs" by simp
  have "\<And>ws. length ws = length vs \<and> take index ws = take index vs \<longleftrightarrow> ws = vs"
    using eq by auto
  then show ?case using eq by (auto simp: flips_val.simps)
next
  case (Suc d)
  then have lt: "index < length vs" by simp
  let ?vs' = "vs[index := flipped (vs ! index)]"
  have d1: "d = length vs - Suc index" and d2: "d = length ?vs' - Suc index"
    using Suc.hyps(2) by simp_all
  have l1: "Suc index \<le> length vs" and l2: "Suc index \<le> length ?vs'" using lt by simp_all
  note ih1 = Suc.hyps(1) [OF d1 l1] and ih2 = Suc.hyps(1) [OF d2 l2]
  have unf: "set (flips_val index vs) =
      set (flips_val (Suc index) vs) \<union> set (flips_val (Suc index) ?vs')"
    using lt by (subst flips_val.simps) simp
  have tk: "\<And>ws us. length ws = length vs \<Longrightarrow> length us = length vs \<Longrightarrow>
      take (Suc index) ws = take (Suc index) us \<longleftrightarrow>
      take index ws = take index us \<and> ws ! index = us ! index"
    using lt by (simp add: take_Suc_conv_app_nth)
  show ?case
  proof (intro set_eqI iffI)
    fix ws
    assume "ws \<in> set (flips_val index vs)"
    then consider (a) "ws \<in> set (flips_val (Suc index) vs)"
      | (b) "ws \<in> set (flips_val (Suc index) ?vs')"
      unfolding unf by auto
    then show "ws \<in> {ws. length ws = length vs \<and> take index ws = take index vs
        \<and> (\<forall>k. index \<le> k \<and> k < length vs \<longrightarrow> ws ! k = vs ! k \<or> ws ! k = flipped (vs ! k))}"
    proof cases
      case a
      then have w: "length ws = length vs" "take (Suc index) ws = take (Suc index) vs"
        "\<forall>k. Suc index \<le> k \<and> k < length vs \<longrightarrow> ws ! k = vs ! k \<or> ws ! k = flipped (vs ! k)"
        unfolding ih1 by auto
      have "take index ws = take index vs" "ws ! index = vs ! index"
        using w(2) tk [OF w(1) refl] by auto
      moreover have "\<forall>k. index \<le> k \<and> k < length vs \<longrightarrow>
          ws ! k = vs ! k \<or> ws ! k = flipped (vs ! k)"
      proof (intro allI impI)
        fix k assume k: "index \<le> k \<and> k < length vs"
        show "ws ! k = vs ! k \<or> ws ! k = flipped (vs ! k)"
        proof (cases "k = index")
          case True
          then show ?thesis using \<open>ws ! index = vs ! index\<close> by simp
        next
          case False
          then show ?thesis using k w(3) by (simp add: Suc_le_eq)
        qed
      qed
      ultimately show ?thesis using w(1) by simp
    next
      case b
      then have w: "length ws = length vs" "take (Suc index) ws = take (Suc index) ?vs'"
        "\<forall>k. Suc index \<le> k \<and> k < length vs \<longrightarrow> ws ! k = ?vs' ! k \<or> ws ! k = flipped (?vs' ! k)"
        unfolding ih2 by auto
      have "take index ws = take index ?vs'" "ws ! index = ?vs' ! index"
        using w(2) tk [OF w(1), of ?vs'] by auto
      then have t: "take index ws = take index vs" "ws ! index = flipped (vs ! index)"
        using lt by simp_all
      moreover have "\<forall>k. index \<le> k \<and> k < length vs \<longrightarrow>
          ws ! k = vs ! k \<or> ws ! k = flipped (vs ! k)"
      proof (intro allI impI)
        fix k assume k: "index \<le> k \<and> k < length vs"
        show "ws ! k = vs ! k \<or> ws ! k = flipped (vs ! k)"
        proof (cases "k = index")
          case True
          then show ?thesis using t(2) by simp
        next
          case False
          then have "Suc index \<le> k" "?vs' ! k = vs ! k" using k by auto
          then show ?thesis using k w(3) by metis
        qed
      qed
      ultimately show ?thesis using w(1) by simp
    qed
  next
    fix ws
    assume "ws \<in> {ws. length ws = length vs \<and> take index ws = take index vs
        \<and> (\<forall>k. index \<le> k \<and> k < length vs \<longrightarrow> ws ! k = vs ! k \<or> ws ! k = flipped (vs ! k))}"
    then have w: "length ws = length vs" "take index ws = take index vs"
      "\<forall>k. index \<le> k \<and> k < length vs \<longrightarrow> ws ! k = vs ! k \<or> ws ! k = flipped (vs ! k)"
      by auto
    have rest: "\<forall>k. Suc index \<le> k \<and> k < length vs \<longrightarrow>
        ws ! k = vs ! k \<or> ws ! k = flipped (vs ! k)"
      using w(3) by (simp add: Suc_le_eq)
    have rest': "\<forall>k. Suc index \<le> k \<and> k < length ?vs' \<longrightarrow>
        ws ! k = ?vs' ! k \<or> ws ! k = flipped (?vs' ! k)"
    proof (intro allI impI)
      fix k assume k: "Suc index \<le> k \<and> k < length ?vs'"
      then have "?vs' ! k = vs ! k" by auto
      then show "ws ! k = ?vs' ! k \<or> ws ! k = flipped (?vs' ! k)"
        using k rest by simp
    qed
    from w(3) lt have "ws ! index = vs ! index \<or> ws ! index = flipped (vs ! index)" by simp
    then show "ws \<in> set (flips_val index vs)"
    proof
      assume "ws ! index = vs ! index"
      then have "take (Suc index) ws = take (Suc index) vs"
        using w(2) tk [OF w(1) refl] by simp
      then have "ws \<in> set (flips_val (Suc index) vs)"
        unfolding ih1 using w(1) rest by simp
      then show ?thesis unfolding unf by simp
    next
      assume "ws ! index = flipped (vs ! index)"
      then have "take (Suc index) ws = take (Suc index) ?vs'"
        using w(2) tk [OF w(1), of ?vs'] lt by simp
      then have "ws \<in> set (flips_val (Suc index) ?vs')"
        unfolding ih2 using w(1) rest' by simp
      then show ?thesis unfolding unf by simp
    qed
  qed
qed

lemma flips_val_0_set: "set (flips_val 0 vs) = {ws. oriented vs ws}"
  using flips_val_set [of 0 vs]
  by (auto simp: oriented_def list_all2_conv_all_nth)

lemma candidates_set:
  "set (candidates vs) = {ws. \<exists>ps. mset ps = mset vs \<and> oriented ps ws}"
  by (auto simp: candidates_def perms_swap_0_set flips_val_0_set)

lemma find_None_candidates:
  "find chain_ok (candidates vs) = None \<longleftrightarrow>
     \<not> (\<exists>ps ws. mset ps = mset vs \<and> oriented ps ws \<and> chain_ok ws)"
  using candidates_set [of vs] by (auto simp: find_None_iff)

end
